theory Spec2Isabelle
  imports Complex_Main "HOL-Library.Char_ord" "HOL-Library.List_Lexorder"
begin

section \<open>Cells, errors and Python comparison\<close>

text \<open>
  The estimator converts its inputs to arrays of Python objects (\<^verbatim>\<open>dtype=object\<close>), so a
  cell of the feature matrix, a class label and a branch label are each a number or a
  string. Feature matrices are lists of rows.
\<close>

datatype val = Num real | Str string

datatype error =
    KeyError val
  | TypeError
  | AssertionError
  | StatisticsError
  | IndexError
  | ValueError
  | AttributeError
  | NotImplementedError
  | PlainException


fun is_number :: "val \<Rightarrow> bool" where
  "is_number (Num _) = True"
| "is_number (Str _) = False"

text \<open>Python 3 orders numbers with numbers and strings with strings; anything else raises.\<close>

fun py_lt :: "val \<Rightarrow> val \<Rightarrow> error + bool" where
  "py_lt (Num a) (Num b) = Inr (a < b)"
| "py_lt (Str a) (Str b) = Inr (a < b)"
| "py_lt _ _ = Inl TypeError"

fun py_le :: "val \<Rightarrow> val \<Rightarrow> error + bool" where
  "py_le (Num a) (Num b) = Inr (a \<le> b)"
| "py_le (Str a) (Str b) = Inr (a \<le> b)"
| "py_le _ _ = Inl TypeError"

text \<open>Indexing a pair with a boolean: \<^verbatim>\<open>False\<close> is index 0 and \<^verbatim>\<open>True\<close> is index 1.\<close>

fun bool_index :: "'a \<times> 'a \<Rightarrow> bool \<Rightarrow> 'a" where
  "bool_index (a, b) i = (if i then b else a)"

text \<open>Running a list of fallible computations stops at the first error.\<close>

fun sequence :: "(error + 'a) list \<Rightarrow> error + 'a list" where
  "sequence [] = Inr []"
| "sequence (r # rs) =
     (case r of
        Inl e \<Rightarrow> Inl e
      | Inr a \<Rightarrow> (case sequence rs of Inl e \<Rightarrow> Inl e | Inr as \<Rightarrow> Inr (a # as)))"

section \<open>numpy and statistics helpers\<close>

fun val_le :: "val \<Rightarrow> val \<Rightarrow> bool" where
  "val_le (Num a) (Num b) = (a \<le> b)"
| "val_le (Str a) (Str b) = (a \<le> b)"
| "val_le (Num _) (Str _) = True"
| "val_le (Str _) (Num _) = False"

fun insort_val :: "val \<Rightarrow> val list \<Rightarrow> val list" where
  "insort_val x [] = [x]"
| "insort_val x (y # ys) = (if val_le x y then x # y # ys else y # insort_val x ys)"

definition sort_val :: "val list \<Rightarrow> val list" where
  "sort_val xs = foldr insort_val xs []"

definition homogeneous :: "val list \<Rightarrow> bool" where
  "homogeneous xs = (list_all is_number xs \<or> list_all (\<lambda>v. \<not> is_number v) xs)"

text \<open>
  \<^verbatim>\<open>np.unique\<close>: the sorted distinct elements. Sorting an object array that holds both
  numbers and strings compares a number with a string and raises \<^verbatim>\<open>TypeError\<close>.
\<close>

definition np_unique :: "val list \<Rightarrow> error + val list" where
  "np_unique xs = (if homogeneous xs then Inr (sort_val (remdups xs)) else Inl TypeError)"

text \<open>\<^verbatim>\<open>np.unique(xs, return_counts=True)\<close>, zipped into a dictionary.\<close>

definition unique_counts :: "val list \<Rightarrow> error + (val \<times> nat) list" where
  "unique_counts xs =
     (case np_unique xs of
        Inl e \<Rightarrow> Inl e
      | Inr us \<Rightarrow> Inr (map (\<lambda>u. (u, count_list xs u)) us))"

text \<open>
  \<^verbatim>\<open>statistics.mode\<close>: the most common element, the first one encountered among several;
  \<^verbatim>\<open>StatisticsError\<close> on no data.
\<close>

fun first_max_by :: "('a \<Rightarrow> nat) \<Rightarrow> 'a \<Rightarrow> 'a list \<Rightarrow> 'a" where
  "first_max_by f best [] = best"
| "first_max_by f best (x # xs) = first_max_by f (if f best < f x then x else best) xs"

definition mode :: "val list \<Rightarrow> error + val" where
  "mode xs =
     (case xs of
        [] \<Rightarrow> Inl StatisticsError
      | x # rest \<Rightarrow> Inr (first_max_by (count_list xs) x rest))"

section \<open>DecisionNode\<close>

text \<open>
  The scalar attributes of a \<^verbatim>\<open>DecisionNode\<close>. \<^verbatim>\<open>feature\<close> is the name of the split feature
  or, in a leaf, the predicted class.
\<close>

record fields =
  feature :: val
  threshold :: "val option"
  branch :: "val option"
  depth :: nat
  target :: "val list"
  node_value :: "nat list"
  n_samples :: nat
  classes :: "val list"

text \<open>
  A node owns its children, a dictionary from branch label to child kept in insertion
  order. The builder deep-copies every node it makes together with the parent the node
  refers to, so \<^verbatim>\<open>parent\<close> is a snapshot of the split node taken when the child was made;
  the program reads only scalar attributes through it (\<^verbatim>\<open>parent.depth\<close>,
  \<^verbatim>\<open>parent.target\<close>, \<^verbatim>\<open>parent.value\<close>, \<^verbatim>\<open>parent.n_samples\<close>, \<^verbatim>\<open>parent.threshold\<close>), and the
  snapshot holds those.
\<close>

datatype node = DecisionNode (attrs: fields) (parent: "fields option") (children: "(val \<times> node) list")

text \<open>\<^verbatim>\<open>__post_init__\<close>: class counts aligned to \<^verbatim>\<open>classes\<close>, sample count, depth from the parent.\<close>

definition post_init ::
  "val \<Rightarrow> val option \<Rightarrow> fields option \<Rightarrow> val list \<Rightarrow> val list \<Rightarrow> error + node" where
  "post_init feat br par tgt cls =
     (case unique_counts tgt of
        Inl e \<Rightarrow> Inl e
      | Inr n_class_dist \<Rightarrow>
          Inr (DecisionNode
            \<lparr> feature = feat, threshold = None, branch = br,
              depth = (case par of None \<Rightarrow> 0 | Some p \<Rightarrow> depth p + 1),
              target = tgt,
              node_value = map (\<lambda>k. case map_of n_class_dist k of None \<Rightarrow> 0 | Some c \<Rightarrow> c) cls,
              n_samples = length tgt,
              classes = cls \<rparr>
            par []))"

definition is_leaf :: "node \<Rightarrow> bool" where
  "is_leaf n = (children n = [])"

text \<open>
  \<^verbatim>\<open>__getitem__\<close>: the branch label is \<^verbatim>\<open>("True", "False")[other <= self.threshold]\<close> on a
  node with a threshold and the queried value itself otherwise; the label is then looked
  up in \<^verbatim>\<open>children\<close>.
\<close>

definition getitem :: "node \<Rightarrow> val \<Rightarrow> error + node" where
  "getitem n other =
     (case (case threshold (attrs n) of
              Some t \<Rightarrow>
                (case py_le other t of
                   Inl e \<Rightarrow> Inl e
                 | Inr b \<Rightarrow> Inr (bool_index (Str ''True'', Str ''False'') b))
            | None \<Rightarrow> Inr other) of
        Inl e \<Rightarrow> Inl e
      | Inr br \<Rightarrow>
          (case map_of (children n) br of
             None \<Rightarrow> Inl (KeyError br)
           | Some c \<Rightarrow> Inr c))"

section \<open>Enumeration of a tree\<close>

text \<open>
  \<^verbatim>\<open>__iter__\<close>: the frontier is a Python list used as a stack, its top at the end.
  \<^verbatim>\<open>sorted\<close> is stable and \<^verbatim>\<open>False\<close> sorts before \<^verbatim>\<open>True\<close>.
\<close>

lemma sum_list_insort_key:
  fixes f :: "'a \<Rightarrow> nat"
  shows "sum_list (map f (insort_key k x xs)) = f x + sum_list (map f xs)"
  by (induction xs) auto

lemma sum_list_sort_key:
  fixes f :: "'a \<Rightarrow> nat"
  shows "sum_list (map f (sort_key k xs)) = sum_list (map f xs)"
  by (induction xs) (auto simp: sum_list_insort_key)

lemma sum_list_children_less:
  "sum_list (map size (map snd cs)) < size (DecisionNode a p cs)"
proof -
  have "sum_list (map size (map snd cs)) \<le> size_list (size_prod (\<lambda>_. 0) size) cs"
    by (induction cs) auto
  then show ?thesis by simp
qed

function iter_loop :: "node list \<Rightarrow> node list" where
  "iter_loop frontier =
     (if frontier = [] then []
      else
        let tree_node = last frontier;
            popped = butlast frontier
        in tree_node #
           iter_loop (popped @ sort_key (\<lambda>n. \<not> is_leaf n) (map snd (children tree_node))))"
  by pat_completeness auto
termination
proof (relation "measure (\<lambda>fr. sum_list (map size fr))")
  show "wf (measure (\<lambda>fr. sum_list (map size fr)))" by simp
next
  fix frontier :: "node list" and x xa
  assume ne: "frontier \<noteq> []" and x: "x = last frontier" and xa: "xa = butlast frontier"
  from ne have split: "frontier = xa @ [x]" using x xa by simp
  obtain a p cs where n: "x = DecisionNode a p cs" by (cases x)
  have less: "sum_list (map size (map snd cs)) < size x"
    unfolding n by (rule sum_list_children_less)
  have "sum_list (map size (xa @ sort_key (\<lambda>n. \<not> is_leaf n) (map snd (children x))))
      = sum_list (map size xa) + sum_list (map size (map snd cs))"
    by (simp add: sum_list_sort_key n del: map_map)
  moreover have "sum_list (map size frontier) = sum_list (map size xa) + size x"
    by (subst split) simp
  ultimately show "(xa @ sort_key (\<lambda>n. \<not> is_leaf n) (map snd (children x)), frontier)
      \<in> measure (\<lambda>fr. sum_list (map size fr))"
    using less by simp
qed

declare iter_loop.simps [simp del]

definition iter :: "node \<Rightarrow> node list" where
  "iter tree = iter_loop [tree]"

text \<open>
  The enumeration as the specification words it: a stack (top at the head) from which a
  node is popped and yielded, and onto which its leaf children and then its non-leaf
  children are pushed one by one, each group in insertion order.
\<close>

definition push_all :: "node list \<Rightarrow> node list \<Rightarrow> node list" where
  "push_all ns stack = fold (\<lambda>n st. n # st) ns stack"

lemma push_all_rev: "push_all ns stack = rev ns @ stack"
  unfolding push_all_def by (induction ns arbitrary: stack) auto

function spec_dfs :: "node list \<Rightarrow> node list" where
  "spec_dfs [] = []"
| "spec_dfs (n # stack) =
     n # spec_dfs (push_all
           (filter is_leaf (map snd (children n)) @
            filter (\<lambda>c. \<not> is_leaf c) (map snd (children n)))
           stack)"
  by pat_completeness auto
termination
proof (relation "measure (\<lambda>st. sum_list (map size st))")
  show "wf (measure (\<lambda>st. sum_list (map size st)))" by simp
next
  fix n :: node and stack :: "node list"
  obtain a p cs where n: "n = DecisionNode a p cs" by (cases n)
  have part: "sum_list (map size (filter is_leaf xs)) + sum_list (map size (filter (\<lambda>c. \<not> is_leaf c) xs))
      = sum_list (map size xs)" for xs :: "node list"
    by (induction xs) auto
  have less: "sum_list (map size (map snd cs)) < size n"
    unfolding n by (rule sum_list_children_less)
  have revsum: "sum_list (map size (rev xs)) = sum_list (map size xs)" for xs :: "node list"
    by (induction xs) auto
  have "sum_list (map size (push_all (filter is_leaf (map snd (children n)) @
            filter (\<lambda>c. \<not> is_leaf c) (map snd (children n))) stack))
      = sum_list (map size (map snd cs)) + sum_list (map size stack)"
    unfolding push_all_rev map_append sum_list_append revsum
    using part [of "map snd cs"] by (simp add: n)
  then show "(push_all (filter is_leaf (map snd (children n)) @
            filter (\<lambda>c. \<not> is_leaf c) (map snd (children n))) stack, n # stack)
      \<in> measure (\<lambda>st. sum_list (map size st))"
    using less by simp
qed


section \<open>Arrays\<close>

text \<open>
  A feature matrix is the list of its rows. \<^verbatim>\<open>X.shape[1]\<close> is read where the matrix has a
  row; \<^verbatim>\<open>X.size\<close> is the number of cells.
\<close>

definition ncols :: "val list list \<Rightarrow> nat" where
  "ncols X = (case X of [] \<Rightarrow> 0 | r # _ \<Rightarrow> length r)"

definition X_size :: "val list list \<Rightarrow> nat" where
  "X_size X = length X * ncols X"

definition column :: "val list list \<Rightarrow> nat \<Rightarrow> val list" where
  "column X i = map (\<lambda>r. r ! i) X"

definition delete_col :: "nat \<Rightarrow> 'a list \<Rightarrow> 'a list" where
  "delete_col i r = take i r @ drop (Suc i) r"

text \<open>Indexing with a boolean mask; numpy refuses a mask of another length.\<close>

definition take_mask :: "'a list \<Rightarrow> bool list \<Rightarrow> 'a list" where
  "take_mask xs msk = map fst (filter snd (zip xs msk))"

definition select :: "'a list \<Rightarrow> bool list \<Rightarrow> error + 'a list" where
  "select xs msk =
     (if length msk = length xs then Inr (take_mask xs msk) else Inl IndexError)"

text \<open>
  Modelled from the spec: \<^verbatim>\<open>np.split_mask\<close> of the package's utility module, which splits
  an array into the part under the mask and the part under its complement, in that order
  (\<open>{x < threshold}\<close> / \<open>{x >= threshold}\<close>).
\<close>

definition split_mask :: "'a list \<Rightarrow> bool list \<Rightarrow> error + ('a list \<times> 'a list)" where
  "split_mask xs msk =
     (case select xs msk of
        Inl e \<Rightarrow> Inl e
      | Inr a \<Rightarrow>
          (case select xs (map Not msk) of
             Inl e \<Rightarrow> Inl e
           | Inr b \<Rightarrow> Inr (a, b)))"

text \<open>
  Modelled from the spec: \<^verbatim>\<open>is_numeric_dtype\<close> of the package's utility module; a column is
  numerical when its cells are numbers (columns are typed per column, detected and not
  declared).
\<close>

definition is_numeric_dtype :: "val list \<Rightarrow> bool" where
  "is_numeric_dtype col = list_all is_number col"

text \<open>
  Modelled from the spec: \<^verbatim>\<open>np.proba\<close> of the package's utility module, the class counts
  divided by the total count, one entry per observed class.
\<close>

definition proba :: "val list \<Rightarrow> error + real list" where
  "proba x =
     (case unique_counts x of
        Inl e \<Rightarrow> Inl e
      | Inr d \<Rightarrow> Inr (map (\<lambda>(u, c). real c / real (length x)) d))"

definition dot :: "real list \<Rightarrow> real list \<Rightarrow> real" where
  "dot ws xs = sum_list (map (\<lambda>(w, x). w * x) (zip ws xs))"

fun first_index :: "'a list \<Rightarrow> 'a \<Rightarrow> nat" where
  "first_index [] a = 0"
| "first_index (x # xs) a = (if x = a then 0 else Suc (first_index xs a))"

fun max_list :: "real list \<Rightarrow> real" where
  "max_list [] = 0"
| "max_list [x] = x"
| "max_list (x # y # ys) = max x (max_list (y # ys))"

text \<open>\<^verbatim>\<open>np.argmin\<close> and \<^verbatim>\<open>np.argmax\<close>: the index of the first least (greatest) entry.\<close>

definition argmin :: "real list \<Rightarrow> nat" where
  "argmin xs = first_index xs (min_list xs)"

definition argmax :: "real list \<Rightarrow> nat" where
  "argmax xs = first_index xs (max_list xs)"

section \<open>Splitter\<close>

text \<open>\<^verbatim>\<open>_entropy\<close>: Shannon entropy in bits of the empirical distribution.\<close>

definition entropy :: "val list \<Rightarrow> error + real" where
  "entropy x =
     (case proba x of
        Inl e \<Rightarrow> Inl e
      | Inr p \<Rightarrow> Inr (- sum_list (map (\<lambda>q. q * log 2 q) p)))"

text \<open>The mask \<^verbatim>\<open>X[:, feature_idx] < threshold\<close>, cell by cell.\<close>

definition mask_lt :: "val list \<Rightarrow> val \<Rightarrow> error + bool list" where
  "mask_lt col t = sequence (map (\<lambda>v. py_lt v t) col)"

text \<open>
  The inner function \<^verbatim>\<open>cost\<close> of \<^verbatim>\<open>_compute_optimal_threshold\<close>, applied to one row \<open>x\<close> of
  \<open>X\<close>: the candidate threshold is \<^verbatim>\<open>x[-1]\<close>, the last cell of the row.
\<close>

definition cost :: "val list list \<Rightarrow> val list \<Rightarrow> nat \<Rightarrow> val list \<Rightarrow> error + real" where
  "cost X y feature_idx x =
     (if x = [] \<or> \<not> feature_idx < ncols X then Inl IndexError
      else
        let threshold = last x in
        case mask_lt (column X feature_idx) threshold of
          Inl e \<Rightarrow> Inl e
        | Inr msk \<Rightarrow>
        (case split_mask X msk of
          Inl e \<Rightarrow> Inl e
        | Inr (lo, hi) \<Rightarrow>
        let weights = [real (length lo) / real (length X), real (length hi) / real (length X)] in
        (case select y msk of
          Inl e \<Rightarrow> Inl e
        | Inr y_lo \<Rightarrow>
        (case entropy y_lo of
          Inl e \<Rightarrow> Inl e
        | Inr h_lo \<Rightarrow>
        (case select y (map Not msk) of
          Inl e \<Rightarrow> Inl e
        | Inr y_hi \<Rightarrow>
        (case entropy y_hi of
          Inl e \<Rightarrow> Inl e
        | Inr h_hi \<Rightarrow> Inr (dot weights [h_lo, h_hi])))))))"

text \<open>
  \<^verbatim>\<open>_compute_optimal_threshold\<close>: one cost per row, the first least cost, and the threshold
  \<^verbatim>\<open>X[idx, -1]\<close> read from the last column of that row.
\<close>

definition compute_optimal_threshold ::
  "val list list \<Rightarrow> val list \<Rightarrow> nat \<Rightarrow> error + (real \<times> val)" where
  "compute_optimal_threshold X y feature_idx =
     (if X = [] then Inl ValueError
      else
        case sequence (map (cost X y feature_idx) X) of
          Inl e \<Rightarrow> Inl e
        | Inr costs \<Rightarrow>
            let idx = argmin costs;
                t_hat = last (X ! idx);
                min_cost = min_list costs
            in (case entropy y of
                  Inl e \<Rightarrow> Inl e
                | Inr h \<Rightarrow> Inr (h - min_cost, t_hat)))"

text \<open>
  \<^verbatim>\<open>_compute_information_gain\<close>. On a numerical column it stores the threshold found in
  \<^verbatim>\<open>n_thresholds_[feature_idx]\<close>; the builder reads that entry only for the column it
  splits on, right after the gains of all columns of the same partition were computed,
  so the entry read is the one written in the same call: the threshold is returned
  beside the gain.
\<close>

definition compute_information_gain ::
  "val list list \<Rightarrow> val list \<Rightarrow> nat \<Rightarrow> error + (real \<times> val option)" where
  "compute_information_gain X y feature_idx =
     (if is_numeric_dtype (column X feature_idx) then
        (case compute_optimal_threshold X y feature_idx of
           Inl e \<Rightarrow> Inl e
         | Inr (max_gain, t_hat) \<Rightarrow> Inr (max_gain, Some t_hat))
      else
        case proba (column X feature_idx) of
          Inl e \<Rightarrow> Inl e
        | Inr weight \<Rightarrow>
        (case np_unique (column X feature_idx) of
          Inl e \<Rightarrow> Inl e
        | Inr levels \<Rightarrow>
        (case sequence (map (\<lambda>level.
                  case select y (map (\<lambda>v. v = level) (column X feature_idx)) of
                    Inl e \<Rightarrow> Inl e
                  | Inr y_level \<Rightarrow> entropy y_level) levels) of
          Inl e \<Rightarrow> Inl e
        | Inr impurity \<Rightarrow>
        (case entropy y of
          Inl e \<Rightarrow> Inl e
        | Inr h \<Rightarrow> Inr (h - dot weight impurity, None)))))"


section \<open>TreeBuilder\<close>

text \<open>
  The estimator object: its two hyperparameters and what \<^verbatim>\<open>fit\<close> records before it builds
  the tree, the attributes \<^verbatim>\<open>feature_names_\<close>, \<^verbatim>\<open>classes_\<close> and \<^verbatim>\<open>unique_levels_\<close> (named
  here without the trailing underscore). \<^verbatim>\<open>unique_levels_\<close> is a dictionary keyed by the
  column positions \<open>0, 1, \<dots>\<close> of the training matrix, kept as the list of its entries.
\<close>

record estimator =
  max_depth :: "int option"
  min_samples_split :: int
  feature_names :: "val list"
  est_classes :: "val list"
  unique_levels :: "val list list"

text \<open>The closure \<^verbatim>\<open>make_node\<close> of \<^verbatim>\<open>_tree_builder\<close>.\<close>

definition make_node ::
  "estimator \<Rightarrow> val list \<Rightarrow> fields option \<Rightarrow> val option \<Rightarrow> val \<Rightarrow> error + node" where
  "make_node self y par br v = post_init v br par y (est_classes self)"

definition set_threshold :: "val option \<Rightarrow> node \<Rightarrow> node" where
  "set_threshold t n = DecisionNode ((attrs n)\<lparr>threshold := t\<rparr>) (parent n) (children n)"

text \<open>\<^verbatim>\<open>d[k] = v\<close> on a dictionary in insertion order.\<close>

fun dict_set :: "'k \<Rightarrow> 'v \<Rightarrow> ('k \<times> 'v) list \<Rightarrow> ('k \<times> 'v) list" where
  "dict_set k v [] = [(k, v)]"
| "dict_set k v ((k', v') # d) = (if k' = k then (k, v) # d else (k', v') # dict_set k v d)"

definition attach :: "val \<times> node \<Rightarrow> node \<Rightarrow> node" where
  "attach bc n = DecisionNode (attrs n) (parent n) (dict_set (fst bc) (snd bc) (children n))"

text \<open>
  \<^verbatim>\<open>_partition_data\<close>. On a node with a threshold the result is the zip of the two
  sub-partitions with the labels \<^verbatim>\<open>"True"\<close> and \<^verbatim>\<open>"False"\<close>, after the two assertions; on
  any other node it is the one sub-partition of \<open>level\<close>, its split column deleted. Both
  are lists of triples here, of length two and one.
\<close>

definition partition_data ::
  "val list list \<Rightarrow> val list \<Rightarrow> nat \<Rightarrow> val \<Rightarrow> node \<Rightarrow>
     error + (val list list \<times> val list \<times> val) list" where
  "partition_data X y feature_idx level split_node =
     (if \<not> feature_idx < ncols X then Inl IndexError
      else
        case threshold (attrs split_node) of
          Some t \<Rightarrow>
            (case mask_lt (column X feature_idx) t of
               Inl e \<Rightarrow> Inl e
             | Inr msk \<Rightarrow>
             (case split_mask X msk of
               Inl e \<Rightarrow> Inl e
             | Inr (X_lo, X_hi) \<Rightarrow>
                 if X_size X_lo = 0 \<or> X_size X_hi = 0 then Inl AssertionError
                 else
                   (case split_mask y msk of
                      Inl e \<Rightarrow> Inl e
                    | Inr (y_lo, y_hi) \<Rightarrow>
                        if y_lo = [] \<or> y_hi = [] then Inl AssertionError
                        else Inr [(X_lo, y_lo, Str ''True''), (X_hi, y_hi, Str ''False'')])))
        | None \<Rightarrow>
            let msk = map (\<lambda>v. v = level) (column X feature_idx) in
            (case select X msk of
               Inl e \<Rightarrow> Inl e
             | Inr X_level \<Rightarrow>
             (case select y msk of
               Inl e \<Rightarrow> Inl e
             | Inr y_level \<Rightarrow> Inr [(map (delete_col feature_idx) X_level, y_level, level)])))"

text \<open>
  The part of \<^verbatim>\<open>_tree_builder\<close> between the stopping rules and the recursive calls: the
  gains of all columns, the split node, the sub-partitions and the feature indices handed
  to the children.
\<close>

definition split_step ::
  "estimator \<Rightarrow> val list list \<Rightarrow> val list \<Rightarrow> nat list \<Rightarrow> fields option \<Rightarrow> val option \<Rightarrow>
     error + (node \<times> (val list list \<times> val list \<times> val) list \<times> nat list)" where
  "split_step self X y feature_indices par br =
     (case sequence (map (compute_information_gain X y) [0..<ncols X]) of
        Inl e \<Rightarrow> Inl e
      | Inr feature_importances \<Rightarrow>
          if feature_importances = [] then Inl ValueError
          else
            let split_feature_idx = argmax (map fst feature_importances) in
            if \<not> split_feature_idx < length feature_indices then Inl IndexError
            else
              let norm_split_feature_idx = feature_indices ! split_feature_idx in
              if \<not> norm_split_feature_idx < length (feature_names self) then Inl IndexError
              else
                (case make_node self y par br (feature_names self ! norm_split_feature_idx) of
                   Inl e \<Rightarrow> Inl e
                 | Inr made \<Rightarrow>
                     let numeric = is_numeric_dtype (column X split_feature_idx);
                         split_node =
                           (if numeric
                            then set_threshold (snd (feature_importances ! split_feature_idx)) made
                            else made)
                     in
                     if \<not> split_feature_idx < length (unique_levels self)
                     then Inl (KeyError (Num (real split_feature_idx)))
                     else
                       (case sequence (map (\<lambda>level.
                                 partition_data X y split_feature_idx level split_node)
                               (unique_levels self ! split_feature_idx)) of
                          Inl e \<Rightarrow> Inl e
                        | Inr parts \<Rightarrow>
                            if numeric then
                              (case parts of
                                 [] \<Rightarrow> Inl IndexError
                               | zipped # _ \<Rightarrow> Inr (split_node, zipped, feature_indices))
                            else
                              Inr (split_node, concat parts,
                                   delete_col split_feature_idx feature_indices))))"

text \<open>What makes the recursion stop: the rows of a sub-partition, each counted with its cells.\<close>

definition weight :: "val list list \<Rightarrow> nat" where
  "weight X = sum_list (map (\<lambda>r. Suc (length r)) X)"

lemma sequence_length: "sequence rs = Inr xs \<Longrightarrow> length xs = length rs"
  by (induction rs arbitrary: xs) (auto split: sum.splits)

lemma sequence_nth:
  "sequence rs = Inr xs \<Longrightarrow> i < length rs \<Longrightarrow> rs ! i = Inr (xs ! i)"
proof (induction rs arbitrary: xs i)
  case Nil
  then show ?case by simp
next
  case (Cons r rs)
  then show ?case by (cases i) (auto split: sum.splits)
qed

lemma sequence_mem:
  "sequence rs = Inr xs \<Longrightarrow> x \<in> set xs \<Longrightarrow> Inr x \<in> set rs"
  by (induction rs arbitrary: xs) (auto split: sum.splits)

lemma max_list_mem: "xs \<noteq> [] \<Longrightarrow> max_list xs \<in> set xs"
  by (induction xs rule: max_list.induct) (auto simp: max_def)

lemma first_index_less: "a \<in> set xs \<Longrightarrow> first_index xs a < length xs"
  by (induction xs) auto

lemma argmax_less: "xs \<noteq> [] \<Longrightarrow> argmax xs < length xs"
  unfolding argmax_def by (simp add: first_index_less max_list_mem)

lemma weight_select_split:
  "length msk = length X \<Longrightarrow>
     weight (take_mask X msk) + weight (take_mask X (map Not msk)) = weight X"
  unfolding weight_def take_mask_def
  by (induction X msk rule: list_induct2') auto

lemma weight_pos: "X \<noteq> [] \<Longrightarrow> 0 < weight X"
  unfolding weight_def by (cases X) auto

lemma X_size_nonempty: "X_size X \<noteq> 0 \<Longrightarrow> X \<noteq> [] \<and> 0 < ncols X"
  unfolding X_size_def by auto

lemma weight_delete_le: "weight (map (delete_col i) X) \<le> weight X"
  unfolding weight_def delete_col_def
  by (induction X) auto

lemma weight_filter_le: "weight (take_mask X msk) \<le> weight X"
  unfolding weight_def take_mask_def
  by (induction X msk rule: list_induct2') auto

lemma weight_level_less:
  assumes "X \<noteq> []" and "i < ncols X" and "length msk = length X"
  shows "weight (map (delete_col i) (take_mask X msk)) < weight X"
proof -
  from assms obtain r rest b mrest where X: "X = r # rest" and m: "msk = b # mrest"
    by (cases X; cases msk) auto
  from assms(2) X have i: "i < length r" by (simp add: ncols_def)
  have rest: "weight (map (delete_col i) (take_mask rest mrest)) \<le> weight rest"
    by (rule order_trans [OF weight_delete_le weight_filter_le])
  have row: "length (delete_col i r) < length r"
    using i by (simp add: delete_col_def)
  show ?thesis
  proof (cases b)
    case True
    have "weight (map (delete_col i) (take_mask X msk))
        = Suc (length (delete_col i r)) + weight (map (delete_col i) (take_mask rest mrest))"
      by (simp add: X m True weight_def take_mask_def)
    also have "\<dots> < Suc (length r) + weight rest" using row rest by simp
    also have "\<dots> = weight X" by (simp add: X weight_def)
    finally show ?thesis .
  next
    case False
    have "weight (map (delete_col i) (take_mask X msk))
        = weight (map (delete_col i) (take_mask rest mrest))"
      by (simp add: X m False take_mask_def)
    also have "\<dots> < Suc (length r) + weight rest" using rest by simp
    also have "\<dots> = weight X" by (simp add: X weight_def)
    finally show ?thesis .
  qed
qed

lemma select_Inr: "select xs msk = Inr ys \<longleftrightarrow> length msk = length xs \<and> ys = take_mask xs msk"
  unfolding select_def by auto

lemma split_mask_Inr:
  "split_mask xs msk = Inr (a, b) \<longleftrightarrow>
     length msk = length xs \<and> a = take_mask xs msk \<and> b = take_mask xs (map Not msk)"
  unfolding split_mask_def select_def by auto

lemma partition_data_level:
  assumes "partition_data X y i level sn = Inr part" and "threshold (attrs sn) = None"
  shows "i < ncols X \<and> length X = length y \<and>
         part = [(map (delete_col i) (take_mask X (map (\<lambda>v. v = level) (column X i))),
                  take_mask y (map (\<lambda>v. v = level) (column X i)), level)]"
proof -
  from assms(1) have i: "i < ncols X"
    by (auto simp: partition_data_def split: if_splits)
  from assms i obtain X_level y_level where
    X: "select X (map (\<lambda>v. v = level) (column X i)) = Inr X_level" and
    y: "select y (map (\<lambda>v. v = level) (column X i)) = Inr y_level" and
    p: "part = [(map (delete_col i) X_level, y_level, level)]"
    by (auto simp: partition_data_def Let_def split: sum.splits)
  from X y p i show ?thesis by (auto simp: select_Inr column_def)
qed

lemma partition_data_threshold:
  assumes "partition_data X y i level sn = Inr part" and "threshold (attrs sn) = Some t"
  shows "\<exists>msk. mask_lt (column X i) t = Inr msk \<and> length msk = length X \<and> length X = length y \<and>
           i < ncols X \<and>
           X_size (take_mask X msk) \<noteq> 0 \<and> X_size (take_mask X (map Not msk)) \<noteq> 0 \<and>
           take_mask y msk \<noteq> [] \<and> take_mask y (map Not msk) \<noteq> [] \<and>
           part = [(take_mask X msk, take_mask y msk, Str ''True''),
                   (take_mask X (map Not msk), take_mask y (map Not msk), Str ''False'')]"
proof -
  from assms(1) have i: "i < ncols X"
    by (auto simp: partition_data_def split: if_splits)
  from assms i obtain msk where m: "mask_lt (column X i) t = Inr msk"
    by (auto simp: partition_data_def split: sum.splits)
  from assms i m obtain X_lo X_hi where sx: "split_mask X msk = Inr (X_lo, X_hi)"
    by (auto simp: partition_data_def split: sum.splits)
  from assms i m sx have nz: "X_size X_lo \<noteq> 0 \<and> X_size X_hi \<noteq> 0"
    by (auto simp: partition_data_def split: if_splits)
  from assms i m sx nz obtain y_lo y_hi where sy: "split_mask y msk = Inr (y_lo, y_hi)"
    by (auto simp: partition_data_def split: sum.splits)
  from assms i m sx nz sy have ny: "y_lo \<noteq> [] \<and> y_hi \<noteq> []"
    and p: "part = [(X_lo, y_lo, Str ''True''), (X_hi, y_hi, Str ''False'')]"
    by (auto simp: partition_data_def split: if_splits)
  from sx sy nz ny p m i show ?thesis
    by (auto simp: split_mask_Inr)
qed

lemma partition_data_decreases:
  assumes part: "partition_data X y i level sn = Inr part"
    and mem: "(Xs, ys, b) \<in> set part"
  shows "weight Xs < weight X"
proof (cases "threshold (attrs sn)")
  case None
  from partition_data_level [OF part None] mem
  have i: "i < ncols X" and len: "length X = length y"
    and Xs: "Xs = map (delete_col i) (take_mask X (map (\<lambda>v. v = level) (column X i)))"
    by auto
  from i have ne: "X \<noteq> []" by (auto simp: ncols_def)
  show ?thesis unfolding Xs
    by (rule weight_level_less [OF ne i]) (simp add: column_def)
next
  case (Some t)
  from partition_data_threshold [OF part Some] mem obtain msk where
    len: "length msk = length X"
    and lo: "X_size (take_mask X msk) \<noteq> 0"
    and hi: "X_size (take_mask X (map Not msk)) \<noteq> 0"
    and Xs: "Xs = take_mask X msk \<or> Xs = take_mask X (map Not msk)"
    by auto
  from X_size_nonempty [OF lo] have "0 < weight (take_mask X msk)"
    by (intro weight_pos) simp
  moreover from X_size_nonempty [OF hi] have "0 < weight (take_mask X (map Not msk))"
    by (intro weight_pos) simp
  ultimately show ?thesis
    using weight_select_split [OF len] Xs by auto
qed

lemma split_step_parts:
  assumes "split_step self X y fi par br = Inr (sn, subs, fi')"
  shows "\<exists>gains made parts.
      sequence (map (compute_information_gain X y) [0..<ncols X]) = Inr gains \<and> gains \<noteq> [] \<and>
      argmax (map fst gains) < length fi \<and>
      fi ! argmax (map fst gains) < length (feature_names self) \<and>
      make_node self y par br (feature_names self ! (fi ! argmax (map fst gains))) = Inr made \<and>
      sn = (if is_numeric_dtype (column X (argmax (map fst gains)))
            then set_threshold (snd (gains ! argmax (map fst gains))) made else made) \<and>
      argmax (map fst gains) < length (unique_levels self) \<and>
      sequence (map (\<lambda>level. partition_data X y (argmax (map fst gains)) level sn)
                 (unique_levels self ! argmax (map fst gains))) = Inr parts \<and>
      (if is_numeric_dtype (column X (argmax (map fst gains)))
       then parts \<noteq> [] \<and> subs = hd parts \<and> fi' = fi
       else subs = concat parts \<and> fi' = delete_col (argmax (map fst gains)) fi)"
proof -
  from assms obtain gains where
    g: "sequence (map (compute_information_gain X y) [0..<ncols X]) = Inr gains"
    by (auto simp: split_step_def split: sum.splits)
  from assms g have ne: "gains \<noteq> []"
    by (auto simp: split_step_def split: if_splits)
  from assms g ne have i1: "argmax (map fst gains) < length fi"
    by (auto simp: split_step_def Let_def split: if_splits)
  from assms g ne i1 have i2: "fi ! argmax (map fst gains) < length (feature_names self)"
    by (auto simp: split_step_def Let_def split: if_splits)
  from assms g ne i1 i2 obtain made where
    mk: "make_node self y par br (feature_names self ! (fi ! argmax (map fst gains))) = Inr made"
    by (auto simp: split_step_def Let_def split: sum.splits)
  from assms g ne i1 i2 mk have i3: "argmax (map fst gains) < length (unique_levels self)"
    by (auto simp: split_step_def Let_def split: if_splits)
  let ?sn = "if is_numeric_dtype (column X (argmax (map fst gains)))
            then set_threshold (snd (gains ! argmax (map fst gains))) made else made"
  from assms g ne i1 i2 mk i3 obtain parts where
    ps: "sequence (map (\<lambda>level. partition_data X y (argmax (map fst gains)) level ?sn)
                 (unique_levels self ! argmax (map fst gains))) = Inr parts"
    by (auto simp: split_step_def Let_def split: sum.splits if_splits)
  from assms g ne i1 i2 mk i3 ps have
    "sn = ?sn \<and> (if is_numeric_dtype (column X (argmax (map fst gains)))
       then parts \<noteq> [] \<and> subs = hd parts \<and> fi' = fi
       else subs = concat parts \<and> fi' = delete_col (argmax (map fst gains)) fi)"
    by (auto simp: split_step_def Let_def split: if_splits list.splits)
  with g ne i1 i2 mk i3 ps show ?thesis by blast
qed

lemma split_step_decreases:
  assumes step: "split_step self X y fi par br = Inr (sn, subs, fi')"
    and mem: "(Xs, ys, b) \<in> set subs"
  shows "weight Xs < weight X"
proof -
  from split_step_parts [OF step] obtain i levels parts where
    ps: "sequence (map (\<lambda>level. partition_data X y i level sn) levels) = Inr parts"
    and subs: "subs \<in> set parts \<or> subs = concat parts"
    by (auto split: if_splits)
  from subs mem obtain part where part: "part \<in> set parts" and in_part: "(Xs, ys, b) \<in> set part"
    by auto
  from sequence_mem [OF ps part] obtain level where
    "partition_data X y i level sn = Inr part"
    by auto
  then show ?thesis using in_part by (rule partition_data_decreases)
qed

text \<open>
  \<^verbatim>\<open>_tree_builder\<close>: the five stopping rules in the source's order, then the split and one
  recursive call per sub-partition, each child stored under its branch label.
\<close>

function tree_builder ::
  "estimator \<Rightarrow> val list list \<Rightarrow> val list \<Rightarrow> nat list \<Rightarrow> fields option \<Rightarrow> val option \<Rightarrow> nat \<Rightarrow>
     error + node" where
  "tree_builder self X y feature_indices par br dep =
     (case np_unique y of
        Inl e \<Rightarrow> Inl e
      | Inr labels \<Rightarrow>
          if length labels = 1 then
            (case mode y of Inl e \<Rightarrow> Inl e | Inr m \<Rightarrow> make_node self y par br m)
          else if X_size X = 0 then
            (case par of
               None \<Rightarrow> Inl AttributeError
             | Some p \<Rightarrow>
                 (case mode (target p) of Inl e \<Rightarrow> Inl e | Inr m \<Rightarrow> make_node self y par br m))
          else if list_all (\<lambda>r. r = hd X) X then
            (case mode y of Inl e \<Rightarrow> Inl e | Inr m \<Rightarrow> make_node self y par br m)
          else if max_depth self = Some (int dep) then
            (case mode y of Inl e \<Rightarrow> Inl e | Inr m \<Rightarrow> make_node self y par br m)
          else if int (length X) < min_samples_split self then
            (case mode y of Inl e \<Rightarrow> Inl e | Inr m \<Rightarrow> make_node self y par br m)
          else
            (case split_step self X y feature_indices par br of
               Inl e \<Rightarrow> Inl e
             | Inr (split_node, n_subtrees, child_indices) \<Rightarrow>
                 (case sequence (map (\<lambda>(Xs, ys, b).
                           case tree_builder self Xs ys child_indices
                                  (Some (attrs split_node)) (Some b) (dep + 1) of
                             Inl e \<Rightarrow> Inl e
                           | Inr subtree \<Rightarrow> Inr (b, subtree)) n_subtrees) of
                    Inl e \<Rightarrow> Inl e
                  | Inr subtrees \<Rightarrow> Inr (fold attach subtrees split_node))))"
  by pat_completeness auto
termination
proof (relation "measure (\<lambda>(self, X, y, fi, par, br, dep). weight X)")
  show "wf (measure (\<lambda>(self :: estimator, X, y :: val list, fi :: nat list,
      par :: fields option, br :: val option, dep :: nat). weight X))"
    by simp
next
  fix self :: estimator and X y feature_indices par br and dep :: nat
    and x2 x2a x y' xa ya xb xaa yb xc yc
  assume "split_step self X y feature_indices par br = Inr x2a"
    and "(x, y') = x2a" and "(xa, ya) = y'" and "xb \<in> set xa"
    and "(xaa, yb) = xb" and "(xc, yc) = yb"
  then have "split_step self X y feature_indices par br = Inr (x, xa, ya)"
    and "(xaa, xc, yc) \<in> set xa"
    by auto
  then have "weight xaa < weight X" by (rule split_step_decreases)
  then show "((self, xaa, xc, ya, Some (attrs x), Some yc, dep + 1),
        self, X, y, feature_indices, par, br, dep)
      \<in> measure (\<lambda>(self, X, y, fi, par, br, dep). weight X)"
    by simp
qed

declare tree_builder.simps [simp del]


section \<open>Estimators\<close>

text \<open>
  \<^verbatim>\<open>check_array\<close> and \<^verbatim>\<open>check_X_y\<close> are scikit-learn's validators, taken here with their
  shape checks: a two-dimensional matrix with at least one row and one column, and one
  target per row. With \<^verbatim>\<open>y_numeric=True\<close> and the default numeric \<^verbatim>\<open>dtype\<close> every cell and
  every target has to be a number.
\<close>

definition check_array :: "val list list \<Rightarrow> error + val list list" where
  "check_array X =
     (if X = [] \<or> ncols X = 0 \<or> \<not> list_all (\<lambda>r. length r = ncols X) X then Inl ValueError
      else Inr X)"

definition check_X_y :: "val list list \<Rightarrow> val list \<Rightarrow> error + (val list list \<times> val list)" where
  "check_X_y X y =
     (case check_array X of
        Inl e \<Rightarrow> Inl e
      | Inr X' \<Rightarrow> if length y \<noteq> length X' then Inl ValueError else Inr (X', y))"

definition check_X_y_numeric ::
  "val list list \<Rightarrow> val list \<Rightarrow> error + (val list list \<times> val list)" where
  "check_X_y_numeric X y =
     (case check_X_y X y of
        Inl e \<Rightarrow> Inl e
      | Inr (X', y') \<Rightarrow>
          if list_all (list_all is_number) X' \<and> list_all is_number y' then Inr (X', y')
          else Inl ValueError)"

text \<open>The three containers \<^verbatim>\<open>fit\<close> accepts, and anything else.\<close>

datatype input =
    ListInput "val list list"
  | ArrayInput "val list list"
  | FrameInput "val list" "val list list"
  | OtherInput

fun input_rows :: "input \<Rightarrow> val list list" where
  "input_rows (ListInput X) = X"
| "input_rows (ArrayInput X) = X"
| "input_rows (FrameInput cols X) = X"
| "input_rows OtherInput = []"

fun str_nat :: "nat \<Rightarrow> string" where
  "str_nat n =
     (if n < 10 then [''0123456789'' ! n]
      else str_nat (n div 10) @ [''0123456789'' ! (n mod 10)])"

declare str_nat.simps [simp del]

definition default_names :: "nat \<Rightarrow> val list" where
  "default_names k = map (\<lambda>i. Str (''feature_'' @ str_nat i)) [0..<k]"

definition input_names :: "input \<Rightarrow> error + val list" where
  "input_names inp =
     (case inp of
        ListInput X \<Rightarrow>
          (case X of [] \<Rightarrow> Inl IndexError | r # _ \<Rightarrow> Inr (default_names (length r)))
      | ArrayInput X \<Rightarrow> Inr (default_names (ncols X))
      | FrameInput cols X \<Rightarrow> Inr cols
      | OtherInput \<Rightarrow> Inl PlainException)"

text \<open>
  \<^verbatim>\<open>DecisionTreeClassifier.fit\<close>: the feature names, the validation, the classes, the levels
  of every column, and the tree built from the whole data with the builder's defaults
  (all column positions as feature indices, no parent, no branch, depth 0). The result is
  the estimator with its fitted attributes and \<^verbatim>\<open>tree_\<close>.
\<close>

definition fit :: "estimator \<Rightarrow> input \<Rightarrow> val list \<Rightarrow> error + (estimator \<times> node)" where
  "fit self inp y0 =
     (case input_names inp of
        Inl e \<Rightarrow> Inl e
      | Inr names \<Rightarrow>
      (case check_X_y (input_rows inp) y0 of
        Inl e \<Rightarrow> Inl e
      | Inr (X, y) \<Rightarrow>
      (case np_unique y of
        Inl e \<Rightarrow> Inl e
      | Inr cls \<Rightarrow>
      (case sequence (map (\<lambda>feature_idx.
                if is_numeric_dtype (column X feature_idx)
                then Inr [Str ''True'', Str ''False'']
                else np_unique (column X feature_idx)) [0..<ncols X]) of
        Inl e \<Rightarrow> Inl e
      | Inr levels \<Rightarrow>
          let self' = self\<lparr>feature_names := names, est_classes := cls, unique_levels := levels\<rparr>
          in (case tree_builder self' X y [0..<ncols X] None None 0 of
                Inl e \<Rightarrow> Inl e
              | Inr tree \<Rightarrow> Inr (self', tree))))))"




section \<open>Query\<close>

text \<open>\<^verbatim>\<open>list.index\<close>: the first position of an element, \<^verbatim>\<open>ValueError\<close> when it is absent.\<close>

definition list_index :: "'a list \<Rightarrow> 'a \<Rightarrow> error + nat" where
  "list_index xs a = (if a \<in> set xs then Inr (first_index xs a) else Inl ValueError)"

lemma map_of_size:
  "map_of cs k = Some (c :: node) \<Longrightarrow> size c < Suc (size_list (size_prod (\<lambda>_. 0) size) cs)"
  by (induction cs) (auto split: if_splits)

lemma getitem_smaller: "getitem n v = Inr c \<Longrightarrow> size c < size n"
  by (cases n) (auto simp: getitem_def dest: map_of_size split: option.splits sum.splits)

text \<open>\<^verbatim>\<open>tree_walk\<close>: from the root to a leaf along the query row \<open>x\<close>.\<close>

function tree_walk :: "val list \<Rightarrow> node \<Rightarrow> val list \<Rightarrow> error + node" where
  "tree_walk names tree_node x =
     (if is_leaf tree_node then Inr tree_node
      else
        case list_index names (feature (attrs tree_node)) of
          Inl e \<Rightarrow> Inl e
        | Inr feature_idx \<Rightarrow>
            if \<not> feature_idx < length x then Inl IndexError
            else
              (case getitem tree_node (x ! feature_idx) of
                 Inl e \<Rightarrow> Inl e
               | Inr child \<Rightarrow> tree_walk names child x))"
  by pat_completeness auto
termination
  by (relation "measure (\<lambda>(names, n, x). size n)") (auto dest: getitem_smaller)

declare tree_walk.simps [simp del]

definition decision_paths :: "estimator \<times> node \<Rightarrow> val list list \<Rightarrow> error + node list" where
  "decision_paths fitted X0 =
     (case check_array X0 of
        Inl e \<Rightarrow> Inl e
      | Inr X \<Rightarrow> sequence (map (tree_walk (feature_names (fst fitted)) (snd fitted)) X))"

definition predict :: "estimator \<times> node \<Rightarrow> val list list \<Rightarrow> error + val list" where
  "predict fitted X =
     (case decision_paths fitted X of
        Inl e \<Rightarrow> Inl e
      | Inr leaves \<Rightarrow> Inr (map (\<lambda>n. feature (attrs n)) leaves))"




section \<open>Notions used in the statements\<close>

text \<open>
  \<^verbatim>\<open>DecisionTreeClassifier(max_depth=.., min_samples_split=..)\<close> before \<^verbatim>\<open>fit\<close>: the fitted
  attributes do not exist yet and are empty here. The defaults are \<^verbatim>\<open>None\<close> and 2. The
  regressor has the same attributes; its default \<^verbatim>\<open>max_depth=np.inf\<close> is no bound.
\<close>

definition DecisionTreeClassifier :: "int option \<Rightarrow> int \<Rightarrow> estimator" where
  "DecisionTreeClassifier md mss =
     \<lparr> max_depth = md, min_samples_split = mss,
       feature_names = [], est_classes = [], unique_levels = [] \<rparr>"


text \<open>The branch labels of a node, each with the \<^verbatim>\<open>feature\<close> of the child stored under it.\<close>

definition branches :: "node \<Rightarrow> (val \<times> val) list" where
  "branches n = map (\<lambda>bc. (fst bc, feature (attrs (snd bc)))) (children n)"

text \<open>What a lookup returns, reduced to the branch label and the \<^verbatim>\<open>feature\<close> of the child.\<close>

definition looked_up :: "error + node \<Rightarrow> error + (val option \<times> val)" where
  "looked_up r =
     (case r of Inl e \<Rightarrow> Inl e | Inr c \<Rightarrow> Inr (branch (attrs c), feature (attrs c)))"

text \<open>A property of every node of a tree.\<close>

fun all_nodes :: "(node \<Rightarrow> bool) \<Rightarrow> node \<Rightarrow> bool" where
  "all_nodes P (DecisionNode a p cs) =
     (P (DecisionNode a p cs) \<and> list_all (all_nodes P) (map snd cs))"

text \<open>
  The \<^verbatim>\<open>depth\<close> attribute of every node is its distance from the root, counted from \<open>d\<close>
  at the root.
\<close>

fun at_level :: "nat \<Rightarrow> node \<Rightarrow> bool" where
  "at_level d (DecisionNode a p cs) = (depth a = d \<and> list_all (at_level (Suc d)) (map snd cs))"






text \<open>One recursive call of the builder, as in the loop over the sub-partitions.\<close>

definition build_child ::
  "estimator \<Rightarrow> nat list \<Rightarrow> node \<Rightarrow> nat \<Rightarrow> val list list \<times> val list \<times> val \<Rightarrow> error + (val \<times> node)" where
  "build_child self fi sn dep = (\<lambda>(Xs, ys, b).
     case tree_builder self Xs ys fi (Some (attrs sn)) (Some b) (dep + 1) of
       Inl e \<Rightarrow> Inl e
     | Inr subtree \<Rightarrow> Inr (b, subtree))"



lemmas eval_defs =
  np_unique_def homogeneous_def sort_val_def unique_counts_def mode_def post_init_def
  is_leaf_def getitem_def ncols_def X_size_def column_def delete_col_def take_mask_def
  select_def split_mask_def is_numeric_dtype_def proba_def dot_def argmin_def argmax_def
  entropy_def mask_lt_def cost_def compute_optimal_threshold_def
  compute_information_gain_def make_node_def set_threshold_def attach_def
  partition_data_def split_step_def check_array_def check_X_y_def check_X_y_numeric_def
  input_names_def default_names_def fit_def DecisionTreeClassifier_def branches_def
  looked_up_def list_index_def decision_paths_def predict_def Let_def

section \<open>Facts about the builder\<close>

lemma tree_builder_induct [consumes 0, case_names step]:
  fixes P :: "estimator \<Rightarrow> val list list \<Rightarrow> val list \<Rightarrow> nat list \<Rightarrow> fields option \<Rightarrow>
      val option \<Rightarrow> nat \<Rightarrow> bool"
  assumes step: "\<And>self X y fi par br dep.
      (\<And>sn subs fi' Xs ys b.
          split_step self X y fi par br = Inr (sn, subs, fi') \<Longrightarrow> (Xs, ys, b) \<in> set subs \<Longrightarrow>
          P self Xs ys fi' (Some (attrs sn)) (Some b) (dep + 1))
      \<Longrightarrow> P self X y fi par br dep"
  shows "P self X y fi par br dep"
proof (induction "weight X" arbitrary: X y fi par br dep rule: less_induct)
  case (less X y fi par br dep)
  show ?case
  proof (rule step)
    fix sn subs fi' Xs ys b
    assume "split_step self X y fi par br = Inr (sn, subs, fi')" and "(Xs, ys, b) \<in> set subs"
    then have "weight Xs < weight X" by (rule split_step_decreases)
    then show "P self Xs ys fi' (Some (attrs sn)) (Some b) (dep + 1)" by (rule less)
  qed
qed

lemma tree_builder_cases:
  assumes "tree_builder self X y fi par br dep = Inr t"
  shows "(\<exists>m. make_node self y par br m = Inr t) \<or>
         (\<exists>sn subs fi' subtrees.
            X_size X \<noteq> 0 \<and> max_depth self \<noteq> Some (int dep) \<and>
            split_step self X y fi par br = Inr (sn, subs, fi') \<and>
            sequence (map (build_child self fi' sn dep) subs) = Inr subtrees \<and>
            t = fold attach subtrees sn)"
  using assms
  unfolding build_child_def
  by (subst (asm) tree_builder.simps)
     (auto split: sum.splits if_splits option.splits prod.splits)

lemma set_insort_val: "set (insort_val x xs) = insert x (set xs)"
  by (induction xs) auto

lemma set_sort_val: "set (sort_val xs) = set xs"
  unfolding sort_val_def by (induction xs) (auto simp: set_insort_val)




lemma unique_counts_lookup:
  assumes "unique_counts y = Inr d"
  shows "(case map_of d k of None \<Rightarrow> 0 | Some c \<Rightarrow> c) = count_list y k"
proof -
  from assms have d: "d = map (\<lambda>u. (u, count_list y u)) (sort_val (remdups y))"
    by (auto simp: unique_counts_def np_unique_def split: if_splits)
  show ?thesis
  proof (cases "k \<in> set y")
    case True
    then show ?thesis
      by (simp add: d map_of_map_restrict set_sort_val)
  next
    case False
    then show ?thesis
      by (simp add: d map_of_map_restrict set_sort_val)
  qed
qed

lemma make_node_Inr:
  assumes "make_node self y par br m = Inr t"
  shows "t = DecisionNode
            \<lparr> feature = m, threshold = None, branch = br,
              depth = (case par of None \<Rightarrow> 0 | Some p \<Rightarrow> depth p + 1),
              target = y,
              node_value = map (count_list y) (est_classes self),
              n_samples = length y,
              classes = est_classes self \<rparr>
            par []"
proof -
  from assms obtain d where d: "unique_counts y = Inr d"
    by (auto simp: make_node_def post_init_def split: sum.splits)
  with assms show ?thesis
    by (simp add: make_node_def post_init_def unique_counts_lookup [OF d])
qed

lemma split_step_node:
  assumes "split_step self X y fi par br = Inr (sn, subs, fi')"
  shows "\<exists>m t. sn = DecisionNode
            \<lparr> feature = m, threshold = t, branch = br,
              depth = (case par of None \<Rightarrow> 0 | Some p \<Rightarrow> depth p + 1),
              target = y,
              node_value = map (count_list y) (est_classes self),
              n_samples = length y,
              classes = est_classes self \<rparr>
            par []"
proof -
  from split_step_parts [OF assms] obtain made m t where
    mk: "make_node self y par br m = Inr made" and sn: "sn = made \<or> sn = set_threshold t made"
    by (auto split: if_splits)
  from sn show ?thesis
    unfolding make_node_Inr [OF mk] set_threshold_def by auto
qed





lemma build_child_mem:
  assumes "sequence (map (build_child self fi sn dep) subs) = Inr subtrees"
    and "(b, st) \<in> set subtrees"
  shows "\<exists>Xs ys. (Xs, ys, b) \<in> set subs \<and>
           tree_builder self Xs ys fi (Some (attrs sn)) (Some b) (dep + 1) = Inr st"
proof -
  from sequence_mem [OF assms] obtain sub where sub: "sub \<in> set subs"
    and r: "build_child self fi sn dep sub = Inr (b, st)"
    by auto
  obtain Xs ys b' where s: "sub = (Xs, ys, b')" by (cases sub)
  from r have "b' = b" and "tree_builder self Xs ys fi (Some (attrs sn)) (Some b) (dep + 1) = Inr st"
    by (auto simp: build_child_def s split: sum.splits)
  with sub s show ?thesis by auto
qed

lemma set_dict_set: "set (dict_set k v d) \<subseteq> insert (k, v) (set d)"
  by (induction d) (auto split: if_splits)

lemma attach_simps:
  "attrs (attach bc n) = attrs n" "parent (attach bc n) = parent n"
  "children (attach bc n) = dict_set (fst bc) (snd bc) (children n)"
  by (simp_all add: attach_def)

lemma fold_attach_attrs:
  "attrs (fold attach sts n) = attrs n \<and> parent (fold attach sts n) = parent n"
  by (induction sts arbitrary: n) (simp_all add: attach_simps)

lemma fold_attach_children:
  "set (children (fold attach sts n)) \<subseteq> set sts \<union> set (children n)"
proof (induction sts arbitrary: n)
  case Nil
  then show ?case by simp
next
  case (Cons bc sts)
  have "set (children (attach bc n)) \<subseteq> insert bc (set (children n))"
    using set_dict_set [of "fst bc" "snd bc" "children n"] by (simp add: attach_simps)
  with Cons [of "attach bc n"] show ?case by auto
qed

lemma at_level_iff:
  "at_level d n \<longleftrightarrow> depth (attrs n) = d \<and> (\<forall>c \<in> snd ` set (children n). at_level (Suc d) c)"
  by (cases n) (auto simp: list_all_iff)

lemma all_nodes_iff:
  "all_nodes P n \<longleftrightarrow> P n \<and> (\<forall>c \<in> snd ` set (children n). all_nodes P c)"
  by (cases n) (auto simp: list_all_iff)

lemma fit_Inr:
  assumes "fit self inp y0 = Inr (est, tree)"
  shows "input_rows inp \<noteq> [] \<and> length y0 = length (input_rows inp) \<and>
      np_unique y0 = Inr (est_classes est) \<and>
      input_names inp = Inr (feature_names est) \<and>
      max_depth est = max_depth self \<and> min_samples_split est = min_samples_split self \<and>
      tree_builder est (input_rows inp) y0 [0..<ncols (input_rows inp)] None None 0 = Inr tree"
  using assms
  by (auto simp: fit_def check_X_y_def check_array_def Let_def split: sum.splits if_splits)

section \<open>Enumeration order\<close>

lemma insort_key_leaves:
  assumes x: "\<not> is_leaf x"
  shows "insort_key (\<lambda>n. \<not> is_leaf n) x (filter is_leaf xs @ filter (\<lambda>c. \<not> is_leaf c) xs)
       = filter is_leaf xs @ x # filter (\<lambda>c. \<not> is_leaf c) xs"
proof -
  have pass: "insort_key (\<lambda>n. \<not> is_leaf n) x (ls @ ns) = ls @ insort_key (\<lambda>n. \<not> is_leaf n) x ns"
    if "list_all is_leaf ls" for ls ns
    using that x by (induction ls) auto
  have front: "insort_key (\<lambda>n. \<not> is_leaf n) x ns = x # ns" if "list_all (\<lambda>c. \<not> is_leaf c) ns" for ns
    using that x by (cases ns) auto
  show ?thesis
    by (subst pass) (simp_all add: front list_all_iff)
qed

lemma sorted_children:
  "sort_key (\<lambda>n. \<not> is_leaf n) xs = filter is_leaf xs @ filter (\<lambda>c. \<not> is_leaf c) xs"
proof (induction xs)
  case Nil
  then show ?case by simp
next
  case (Cons x xs)
  show ?case
  proof (cases "is_leaf x")
    case True
    then have "insort_key (\<lambda>n. \<not> is_leaf n) x ys = x # ys" for ys
      by (cases ys) auto
    with Cons True show ?thesis by simp
  next
    case False
    with Cons show ?thesis by (simp add: insort_key_leaves)
  qed
qed

lemma iter_loop_spec_dfs: "iter_loop frontier = spec_dfs (rev frontier)"
proof (induction frontier rule: iter_loop.induct)
  case (1 frontier)
  show ?case
  proof (cases "frontier = []")
    case True
    then show ?thesis by (simp add: iter_loop.simps)
  next
    case False
    then have split: "frontier = butlast frontier @ [last frontier]" by simp
    have "iter_loop frontier = last frontier #
        iter_loop (butlast frontier @ sort_key (\<lambda>n. \<not> is_leaf n) (map snd (children (last frontier))))"
      using False by (subst iter_loop.simps) (simp add: Let_def)
    also have "\<dots> = last frontier #
        spec_dfs (rev (butlast frontier @ sort_key (\<lambda>n. \<not> is_leaf n) (map snd (children (last frontier)))))"
      using "1.IH" [OF False refl refl] by simp
    also have "\<dots> = spec_dfs (last frontier # rev (butlast frontier))"
      by (simp add: push_all_rev sorted_children del: map_map)
    also have "last frontier # rev (butlast frontier) = rev frontier"
      by (subst (3) split) simp
    finally show ?thesis .
  qed
qed

lemma spec_dfs_append: "spec_dfs (xs @ ys) = spec_dfs xs @ spec_dfs ys"
  by (induction xs arbitrary: ys rule: spec_dfs.induct) (simp_all add: push_all_rev)

lemma iter_spec_dfs: "iter n = spec_dfs [n]"
  by (simp add: iter_def iter_loop_spec_dfs)

lemma spec_dfs_concat: "spec_dfs xs = concat (map iter xs)"
proof (induction xs)
  case Nil
  then show ?case by simp
next
  case (Cons x xs)
  have "spec_dfs (x # xs) = spec_dfs ([x] @ xs)" by simp
  also have "\<dots> = spec_dfs [x] @ spec_dfs xs" by (rule spec_dfs_append)
  also have "\<dots> = iter x @ concat (map iter xs)"
    unfolding Cons by (simp only: iter_spec_dfs [symmetric])
  finally show ?case by simp
qed

lemma iter_leaf: "is_leaf n \<Longrightarrow> iter n = [n]"
  by (simp add: iter_spec_dfs is_leaf_def push_all_def)

lemma iter_leaves: "list_all is_leaf ls \<Longrightarrow> concat (map iter ls) = ls"
  by (induction ls) (auto simp: iter_leaf)

lemma iter_unfold:
  "iter tree = tree #
     concat (map iter (rev (filter (\<lambda>c. \<not> is_leaf c) (map snd (children tree))))) @
     rev (filter is_leaf (map snd (children tree)))"
proof -
  let ?inner = "filter (\<lambda>c. \<not> is_leaf c) (map snd (children tree))"
  let ?leaves = "filter is_leaf (map snd (children tree))"
  have "iter tree = spec_dfs [tree]" by (rule iter_spec_dfs)
  also have "\<dots> = tree # spec_dfs (push_all (?leaves @ ?inner) [])"
    by simp
  also have "push_all (?leaves @ ?inner) [] = rev ?inner @ rev ?leaves"
    by (simp only: push_all_rev rev_append append_Nil2)
  also have "spec_dfs (rev ?inner @ rev ?leaves)
      = concat (map iter (rev ?inner)) @ concat (map iter (rev ?leaves))"
    by (simp only: spec_dfs_concat map_append concat_append)
  also have "concat (map iter (rev ?leaves)) = rev ?leaves"
    by (rule iter_leaves) (simp add: list_all_iff)
  finally show ?thesis .
qed

lemma all_nodes_iter: "all_nodes P t = list_all P (iter t)"
proof (induction t)
  case (DecisionNode a p cs)
  let ?t = "DecisionNode a p cs"
  have IH: "all_nodes P c = list_all P (iter c)" if "c \<in> set (map snd cs)" for c
    using that DecisionNode by auto
  have leaf: "list_all P (iter c) = P c" if "is_leaf c" for c
    using that by (simp add: iter_leaf)
  have "list_all P (iter ?t) \<longleftrightarrow>
      P ?t \<and> (\<forall>c \<in> set (map snd cs). \<not> is_leaf c \<longrightarrow> list_all P (iter c)) \<and>
      (\<forall>c \<in> set (map snd cs). is_leaf c \<longrightarrow> P c)"
    by (subst iter_unfold) (auto simp: list_all_iff)
  also have "\<dots> \<longleftrightarrow> P ?t \<and> (\<forall>c \<in> set (map snd cs). list_all P (iter c))"
    using leaf by blast
  also have "\<dots> \<longleftrightarrow> all_nodes P ?t"
    using IH by (auto simp: list_all_iff)
  finally show ?case by simp
qed


text \<open>
  Claim C8. The enumeration of a tree is the explicit-stack depth-first traversal in which
  a popped node is yielded and its leaf children, then its non-leaf children, are pushed,
  each group in insertion order. Hence after a node come the enumerations of its
  non-leaf children, last inserted first, and then its leaf children, last inserted first:
  among siblings the internal nodes are explored before the leaves.
\<close>

theorem iter_order:
  "iter tree = spec_dfs [tree] \<and>
   iter tree = tree #
     concat (map iter (rev (filter (\<lambda>c. \<not> is_leaf c) (map snd (children tree))))) @
     rev (filter is_leaf (map snd (children tree)))"
proof
  show "iter tree = spec_dfs [tree]"
    unfolding iter_def by (simp only: iter_loop_spec_dfs rev.simps append_Nil)
  show "iter tree = tree #
     concat (map iter (rev (filter (\<lambda>c. \<not> is_leaf c) (map snd (children tree))))) @
     rev (filter is_leaf (map snd (children tree)))"
    by (rule iter_unfold)
qed

section \<open>Routing at a threshold node\<close>

text \<open>
  Claim C1. On a node with the threshold \<open>T\<close> a query value \<open>v\<close> is looked up under the
  label \<^verbatim>\<open>"False"\<close> when \<open>v \<le> T\<close> and under \<^verbatim>\<open>"True"\<close> when \<open>v > T\<close>, the other way round
  than claimed. On the tree fitted to the two rows \<open>[1]\<close> and \<open>[2]\<close> with the classes \<open>P\<close>
  and \<open>N\<close> the root splits at the threshold 2 and the row \<open>[1]\<close> lies in the sub-partition
  labelled \<^verbatim>\<open>"True"\<close>, whose leaf predicts \<open>P\<close>; the values 1 and 2 are routed to the
  \<^verbatim>\<open>"False"\<close> leaf, the value 3 to the \<^verbatim>\<open>"True"\<close> leaf, and the training row \<open>[1]\<close> is
  predicted \<open>N\<close>.
\<close>

theorem getitem_routes_le_to_False:
  "getitem (DecisionNode (a\<lparr>threshold := Some (Num T)\<rparr>) p cs) (Num v) =
     (case map_of cs (if v \<le> T then Str ''False'' else Str ''True'') of
        None \<Rightarrow> Inl (KeyError (if v \<le> T then Str ''False'' else Str ''True''))
      | Some c \<Rightarrow> Inr c) \<and>
   (case fit (DecisionTreeClassifier None 2) (ListInput [[Num 1], [Num 2]]) [Str ''P'', Str ''N''] of
      Inl e \<Rightarrow> False
    | Inr (est, tree) \<Rightarrow>
        threshold (attrs tree) = Some (Num 2) \<and>
        branches tree = [(Str ''True'', Str ''P''), (Str ''False'', Str ''N'')] \<and>
        looked_up (getitem tree (Num 1)) = Inr (Some (Str ''False''), Str ''N'') \<and>
        looked_up (getitem tree (Num 2)) = Inr (Some (Str ''False''), Str ''N'') \<and>
        looked_up (getitem tree (Num 3)) = Inr (Some (Str ''True''), Str ''P'') \<and>
        predict (est, tree) [[Num 1]] = Inr [Str ''N''])"
proof
  show "getitem (DecisionNode (a\<lparr>threshold := Some (Num T)\<rparr>) p cs) (Num v) =
     (case map_of cs (if v \<le> T then Str ''False'' else Str ''True'') of
        None \<Rightarrow> Inl (KeyError (if v \<le> T then Str ''False'' else Str ''True''))
      | Some c \<Rightarrow> Inr c)"
    by (simp add: getitem_def)
  show "case fit (DecisionTreeClassifier None 2) (ListInput [[Num 1], [Num 2]]) [Str ''P'', Str ''N''] of
      Inl e \<Rightarrow> False
    | Inr (est, tree) \<Rightarrow>
        threshold (attrs tree) = Some (Num 2) \<and>
        branches tree = [(Str ''True'', Str ''P''), (Str ''False'', Str ''N'')] \<and>
        looked_up (getitem tree (Num 1)) = Inr (Some (Str ''False''), Str ''N'') \<and>
        looked_up (getitem tree (Num 2)) = Inr (Some (Str ''False''), Str ''N'') \<and>
        looked_up (getitem tree (Num 3)) = Inr (Some (Str ''True''), Str ''P'') \<and>
        predict (est, tree) [[Num 1]] = Inr [Str ''N'']"
    by (simp add: eval_defs tree_builder.simps tree_walk.simps str_nat.simps log_divide)
qed

section \<open>Threshold search\<close>

text \<open>
  Claim C2, evaluated on the partition with the rows \<open>[1, 10]\<close> and \<open>[2, 20]\<close>, the classes
  \<open>P\<close> and \<open>N\<close>, and the feature column 0, whose observed values are 1 and 2. The threshold
  returned is 10, a value of the last column and not of column 0, with gain 0; the
  candidates of the search are the cells \<^verbatim>\<open>x[-1]\<close>.
\<close>

theorem optimal_threshold_reads_last_column:
  "compute_optimal_threshold [[Num 1, Num 10], [Num 2, Num 20]] [Str ''P'', Str ''N''] 0
     = Inr (0, Num 10) \<and>
   column [[Num 1, Num 10], [Num 2, Num 20]] 0 = [Num 1, Num 2] \<and>
   Num 10 \<notin> set (column [[Num 1, Num 10], [Num 2, Num 20]] 0)"
  by (simp add: eval_defs log_divide)

section \<open>The assertions of the numerical split\<close>

text \<open>
  Claim C10, evaluated on the one-column training set with the rows \<open>[1], [1], [2], [2]\<close>
  and the classes \<open>P, N, N, P\<close>. Every candidate threshold has the same cost, the first
  one, 1, is chosen, no row is below it, and the assertion of \<^verbatim>\<open>_partition_data\<close> fails:
  \<^verbatim>\<open>fit\<close> raises \<^verbatim>\<open>AssertionError\<close>.
\<close>

theorem fit_assertion_fails:
  "compute_optimal_threshold [[Num 1], [Num 1], [Num 2], [Num 2]]
      [Str ''P'', Str ''N'', Str ''N'', Str ''P''] 0 = Inr (0, Num 1) \<and>
   partition_data [[Num 1], [Num 1], [Num 2], [Num 2]]
      [Str ''P'', Str ''N'', Str ''N'', Str ''P''] 0 level
      (DecisionNode (a\<lparr>threshold := Some (Num 1)\<rparr>) p cs) = Inl AssertionError \<and>
   fit (DecisionTreeClassifier None 2) (ListInput [[Num 1], [Num 1], [Num 2], [Num 2]])
      [Str ''P'', Str ''N'', Str ''N'', Str ''P''] = Inl AssertionError"
  by (simp add: eval_defs tree_builder.simps str_nat.simps log_divide)

section \<open>Branch labels of a categorical split\<close>

text \<open>
  Claim C3, evaluated on the training set with the rows \<open>[a, x], [a, y], [b, x], [b, y]\<close>
  and the classes \<open>P, N, N, P\<close>. The levels recorded at fit time are \<open>a, b\<close> for feature 0
  and \<open>x, y\<close> for feature 1. The root splits feature 0 and drops its column; its child
  under \<open>a\<close> splits \<^verbatim>\<open>feature_1\<close>, which is now column 0 of the partition, and its branch
  labels are \<open>a, b\<close>, the levels recorded for column 0 of the training matrix.
\<close>

theorem categorical_children_use_local_column_index:
  "(case fit (DecisionTreeClassifier None 2)
           (ListInput [[Str ''a'', Str ''x''], [Str ''a'', Str ''y''],
                       [Str ''b'', Str ''x''], [Str ''b'', Str ''y'']])
           [Str ''P'', Str ''N'', Str ''N'', Str ''P''] of
      Inl e \<Rightarrow> False
    | Inr (est, tree) \<Rightarrow>
        feature_names est = [Str ''feature_0'', Str ''feature_1''] \<and>
        unique_levels est = [[Str ''a'', Str ''b''], [Str ''x'', Str ''y'']] \<and>
        feature (attrs tree) = Str ''feature_0'' \<and>
        (case map_of (children tree) (Str ''a'') of
           None \<Rightarrow> False
         | Some n \<Rightarrow>
             feature (attrs n) = Str ''feature_1'' \<and>
             threshold (attrs n) = None \<and>
             branches n = [(Str ''a'', Str ''P''), (Str ''b'', Str ''P'')]))"
  by (simp add: eval_defs tree_builder.simps str_nat.simps log_divide)


section \<open>Unimplemented paths\<close>



section \<open>Empty partitions\<close>



section \<open>Unseen categories\<close>





section \<open>Depth\<close>

lemma depth_invariant:
  "tree_builder self X y fi par br dep = Inr t \<Longrightarrow>
   (case par of None \<Rightarrow> dep = 0 | Some p \<Rightarrow> dep = depth p + 1) \<Longrightarrow>
   at_level dep t \<and>
   (\<forall>k. max_depth self = Some k \<and> int dep \<le> k \<longrightarrow> all_nodes (\<lambda>n. int (depth (attrs n)) \<le> k) t)"
proof (induction self X y fi par br dep arbitrary: t rule: tree_builder_induct)
  case (step self X y fi par br dep)
  from step.prems(2) have dep: "(case par of None \<Rightarrow> 0 | Some p \<Rightarrow> depth p + 1) = dep"
    by (auto split: option.splits)
  from tree_builder_cases [OF step.prems(1)] show ?case
  proof (elim disjE exE conjE)
    fix m
    assume "make_node self y par br m = Inr t"
    from make_node_Inr [OF this] dep show ?thesis by simp
  next
    fix sn subs fi' subtrees
    assume md: "max_depth self \<noteq> Some (int dep)"
      and st: "split_step self X y fi par br = Inr (sn, subs, fi')"
      and sq: "sequence (map (build_child self fi' sn dep) subs) = Inr subtrees"
      and t: "t = fold attach subtrees sn"
    from split_step_node [OF st] dep have sn: "depth (attrs sn) = dep" "children sn = []"
      by auto
    have kids: "at_level (Suc dep) c \<and>
        (\<forall>k. max_depth self = Some k \<and> int dep \<le> k \<longrightarrow> all_nodes (\<lambda>n. int (depth (attrs n)) \<le> k) c)"
      if c: "c \<in> snd ` set (children t)" for c
    proof -
      from c fold_attach_children [of subtrees sn] sn(2) obtain b where "(b, c) \<in> set subtrees"
        unfolding t by auto
      from build_child_mem [OF sq this] obtain Xs ys where
        mem: "(Xs, ys, b) \<in> set subs"
        and tb: "tree_builder self Xs ys fi' (Some (attrs sn)) (Some b) (dep + 1) = Inr c"
        by blast
      from step.IH [OF st mem tb] sn(1) md show ?thesis by auto
    qed
    have top: "depth (attrs t) = dep" unfolding t using fold_attach_attrs [of subtrees sn] sn(1) by simp
    show ?thesis
      using kids top by (subst at_level_iff, subst all_nodes_iff) auto
  qed
qed

text \<open>
  Claim C7 fails for a negative \<^verbatim>\<open>max_depth\<close>, which the constructor accepts: the stopping
  rule compares \<^verbatim>\<open>max_depth\<close> with the depth for equality, and the root has depth 0.
\<close>

theorem negative_max_depth_counterexample:
  "(case fit (DecisionTreeClassifier (Some (- 1)) 2)
           (ListInput [[Str ''A''], [Str ''A''], [Str ''B''], [Str ''B'']])
           [Str ''yes'', Str ''yes'', Str ''no'', Str ''no''] of
      Inl e \<Rightarrow> False
    | Inr (est, tree) \<Rightarrow>
        max_depth est = Some (- 1) \<and> depth (attrs tree) = 0 \<and>
        \<not> list_all (\<lambda>n. int (depth (attrs n)) \<le> - 1) (iter tree))"
  by (simp add: eval_defs tree_builder.simps str_nat.simps log_divide iter_unfold)

text \<open>
  Claim C7 as amended. In every tree produced by \<^verbatim>\<open>fit\<close> the depth of a node is the number
  of edges from the root (0 at the root, one more at each child), and for every
  configured \<^verbatim>\<open>max_depth = k\<close> with \<open>k \<ge> 0\<close> no node has a depth above \<open>k\<close>.
\<close>

theorem depth_is_level_and_bounded:
  assumes "fit self inp y0 = Inr (est, tree)"
  shows "at_level 0 tree \<and>
         (\<forall>k. max_depth self = Some k \<and> 0 \<le> k \<longrightarrow>
                list_all (\<lambda>n. int (depth (attrs n)) \<le> k) (iter tree))"
proof -
  from fit_Inr [OF assms] have md: "max_depth est = max_depth self"
    and tb: "tree_builder est (input_rows inp) y0 [0..<ncols (input_rows inp)] None None 0 = Inr tree"
    by simp_all
  from depth_invariant [OF tb] md show ?thesis
    by (simp add: all_nodes_iter)
qed

text \<open>With \<^verbatim>\<open>max_depth = 1\<close> the tree of the same training set has its leaves at depth 1.\<close>

theorem depth_is_level_and_bounded_witness:
  "\<exists>est tree.
     fit (DecisionTreeClassifier (Some 1) 2)
       (ListInput [[Str ''A''], [Str ''A''], [Str ''B''], [Str ''B'']])
       [Str ''yes'', Str ''yes'', Str ''no'', Str ''no''] = Inr (est, tree) \<and>
     at_level 0 tree \<and> list_all (\<lambda>n. int (depth (attrs n)) \<le> 1) (iter tree)"
proof -
  have "\<exists>est tree. fit (DecisionTreeClassifier (Some 1) 2)
       (ListInput [[Str ''A''], [Str ''A''], [Str ''B''], [Str ''B'']])
       [Str ''yes'', Str ''yes'', Str ''no'', Str ''no''] = Inr (est, tree)"
    by (simp add: eval_defs tree_builder.simps str_nat.simps log_divide)
  then obtain est tree where f: "fit (DecisionTreeClassifier (Some 1) 2)
       (ListInput [[Str ''A''], [Str ''A''], [Str ''B''], [Str ''B'']])
       [Str ''yes'', Str ''yes'', Str ''no'', Str ''no''] = Inr (est, tree)"
    by blast
  from depth_is_level_and_bounded [OF f] f show ?thesis
    by (auto simp: DecisionTreeClassifier_def)
qed

section \<open>Class counts and probabilities\<close>











end
